theory Spec2Isabelle
  imports Main "HOL-Library.Word"
begin

section \<open>The stepper driver of lumisync-embedded/motor/MotorControl\<close>

text \<open>
  The bounded, paced driver \<^verbatim>\<open>motor/MotorControl.{h,cpp}\<close> is embedded function by
  function. The members of type \<^verbatim>\<open>int\<close> are signed 32-bit words, read with \<open>sint\<close>:
  the addition in \<^verbatim>\<open>stepMotor\<close> wraps at \<^verbatim>\<open>INT_MAX\<close> and \<^verbatim>\<open>INT_MIN\<close>, as the code
  compiled for a board with a 32-bit \<^verbatim>\<open>int\<close> does (C++ itself leaves signed overflow
  undefined, and an 8-bit AVR has 16 bits where this text has 32). Timestamps
  (\<^verbatim>\<open>unsigned long\<close>) are 32-bit words, whose subtraction wraps as the unsigned
  subtraction in \<^verbatim>\<open>update\<close> does. Arguments of type \<^verbatim>\<open>int\<close> are passed as integers and
  stored through the conversion to the 32-bit type.

  The older driver one directory up has \<^verbatim>\<open>activateMotor\<close>, \<^verbatim>\<open>deactivateMotor\<close> and
  \<^verbatim>\<open>stepMotor\<close> with the same bodies and no target, bounds or pacing; it is not
  embedded separately.

  Calls that leave the object (\<^verbatim>\<open>pinMode\<close>, \<^verbatim>\<open>digitalWrite\<close>, \<^verbatim>\<open>delay\<close>, the step
  callback) are appended, in program order, to a log carried with the object.
\<close>

subsection \<open>Data\<close>

datatype level = LOW | HIGH

datatype pin_mode = INPUT | OUTPUT

type_synonym millis = "32 word"

type_synonym c_int = "32 word"

definition INT_MAX :: int where
  "INT_MAX = 2147483647"

definition INT_MIN :: int where
  "INT_MIN = - 2147483648"

text \<open>
  A \<^verbatim>\<open>digitalWrite\<close> carries the level read from the excitation table, or \<open>None\<close>
  when the read fell outside the table (C++ gives such a read no meaning; the
  compiled code goes on with whatever the memory holds). A callback is known by the
  address of its function.
\<close>

datatype event =
    PinMode int pin_mode
  | DigitalWrite int "level option"
  | Delay millis
  | StepCallback nat int

record MotorControl =
  m_stepPins :: "nat \<Rightarrow> int"
  m_minStep :: c_int
  m_maxStep :: c_int
  m_stepCallback :: "nat option"
  m_targetStep :: c_int
  m_currentStep :: c_int
  m_lastStepTime :: millis
  m_lastPosition :: c_int
  m_clockwise :: bool
  m_motorActive :: bool
  io_log :: "event list"

definition stepCount :: int where
  "stepCount = 4"

definition fullSteps :: "level list list" where
  "fullSteps =
    [ [HIGH, HIGH, LOW, LOW],
      [LOW, HIGH, HIGH, LOW],
      [LOW, LOW, HIGH, HIGH],
      [HIGH, LOW, LOW, HIGH] ]"

definition stepDelay :: millis where
  "stepDelay = 2"

text \<open>The constructor with the default member initialisers of the header.\<close>

definition new_MotorControl :: "(nat \<Rightarrow> int) \<Rightarrow> int \<Rightarrow> int \<Rightarrow> MotorControl" where
  "new_MotorControl pins minStep maxStep =
    \<lparr> m_stepPins = pins, m_minStep = word_of_int minStep, m_maxStep = word_of_int maxStep,
      m_stepCallback = None, m_targetStep = 0, m_currentStep = 0,
      m_lastStepTime = 0, m_lastPosition = 0,
      m_clockwise = True, m_motorActive = False, io_log = [] \<rparr>"

subsection \<open>Arithmetic of the host language\<close>

text \<open>
  The \<^verbatim>\<open>%\<close> of C++ truncates towards zero: the remainder has the sign of the
  dividend, unlike \<open>mod\<close> on \<open>int\<close>.
\<close>

definition c_rem :: "int \<Rightarrow> int \<Rightarrow> int" where
  "c_rem a b = sgn a * (\<bar>a\<bar> mod \<bar>b\<bar>)"

text \<open>
  Modelled from the spec: the macro \<^verbatim>\<open>constrain\<close> comes from \<^verbatim>\<open>Arduino.h\<close>, which is
  not among the sources. The spec has it clamp the target into
  \<open>[minStep, maxStep]\<close>, saturating to the nearest bound; the lower bound is tested
  first, as the Arduino macro does.
\<close>

definition constrain :: "int \<Rightarrow> int \<Rightarrow> int \<Rightarrow> int" where
  "constrain amt low high = (if amt < low then low else if amt > high then high else amt)"

subsection \<open>Operations\<close>

text \<open>The read \<^verbatim>\<open>fullSteps[stepIndex][i]\<close>.\<close>

definition fullSteps_at :: "int \<Rightarrow> nat \<Rightarrow> level option" where
  "fullSteps_at stepIndex i =
    (if 0 \<le> stepIndex \<and> stepIndex < stepCount \<and> i < 4
     then Some (fullSteps ! nat stepIndex ! i) else None)"

definition log_events :: "event list \<Rightarrow> MotorControl \<Rightarrow> MotorControl" where
  "log_events es s = s\<lparr>io_log := io_log s @ es\<rparr>"

definition activateMotor :: "bool \<Rightarrow> MotorControl \<Rightarrow> MotorControl" where
  "activateMotor directionClockwise s =
    (log_events
       (concat (map (\<lambda>i. [PinMode (m_stepPins s i) OUTPUT,
                           DigitalWrite (m_stepPins s i) (Some LOW)]) [0..<4])) s)
    \<lparr>m_clockwise := directionClockwise, m_motorActive := True,
     m_lastPosition := m_currentStep s\<rparr>"

definition deactivateMotor :: "MotorControl \<Rightarrow> MotorControl" where
  "deactivateMotor s =
    (log_events (map (\<lambda>i. PinMode (m_stepPins s i) INPUT) [0..<4]) s)
    \<lparr>m_motorActive := False, m_lastPosition := m_currentStep s\<rparr>"

text \<open>The row index, computed in \<^verbatim>\<open>int\<close>; no value of it overflows.\<close>

definition stepIndex :: "bool \<Rightarrow> int \<Rightarrow> int" where
  "stepIndex cw cur =
    (if cw then c_rem cur stepCount else (stepCount - 1) - c_rem cur stepCount)"

definition stepMotor :: "MotorControl \<Rightarrow> MotorControl" where
  "stepMotor s =
    (log_events
       (map (\<lambda>i. DigitalWrite (m_stepPins s i)
                    (fullSteps_at (stepIndex (m_clockwise s) (sint (m_currentStep s))) i))
          [0..<4]) s)
    \<lparr>m_currentStep := m_currentStep s + (if m_clockwise s then 1 else - 1)\<rparr>"

text \<open>\<^verbatim>\<open>update\<close>, with the value \<^verbatim>\<open>millis()\<close> returns as argument.\<close>

definition update :: "millis \<Rightarrow> MotorControl \<Rightarrow> MotorControl" where
  "update currentTime s =
    (if m_motorActive s then
       (if (m_clockwise s \<and> sint (m_currentStep s) \<ge> sint (m_targetStep s)) \<or>
           (\<not> m_clockwise s \<and> sint (m_currentStep s) \<le> sint (m_targetStep s))
        then deactivateMotor s
        else if currentTime - m_lastStepTime s \<ge> stepDelay
          then (stepMotor s)\<lparr>m_lastStepTime := currentTime\<rparr>
          else s)
     else s)"

definition moveTo :: "int \<Rightarrow> MotorControl \<Rightarrow> MotorControl" where
  "moveTo targetStep s =
    (let s1 = s\<lparr>m_targetStep :=
                 word_of_int (constrain targetStep (sint (m_minStep s)) (sint (m_maxStep s)))\<rparr>
     in if m_currentStep s1 \<noteq> m_targetStep s1
        then activateMotor (sint (m_targetStep s1) > sint (m_currentStep s1)) s1
        else s1)"

text \<open>The setters of the header.\<close>

definition setStepCallback :: "nat option \<Rightarrow> MotorControl \<Rightarrow> MotorControl" where
  "setStepCallback callback s = s\<lparr>m_stepCallback := callback\<rparr>"

definition setCurrentStep :: "int \<Rightarrow> MotorControl \<Rightarrow> MotorControl" where
  "setCurrentStep currentStep s = s\<lparr>m_currentStep := word_of_int currentStep\<rparr>"

definition setLastPosition :: "int \<Rightarrow> MotorControl \<Rightarrow> MotorControl" where
  "setLastPosition lastPosition s = s\<lparr>m_lastPosition := word_of_int lastPosition\<rparr>"

subsection \<open>The step observer\<close>

text \<open>
  The observer is a bare function pointer: the code behind it can call the public
  members of the driver while \<^verbatim>\<open>moveToSync\<close> is running. The members that return at
  once are the requests it can make; a second \<^verbatim>\<open>moveToSync\<close> from inside the observer
  is not among them.
\<close>

datatype request =
    Update millis
  | ActivateMotor bool
  | DeactivateMotor
  | StepMotor
  | MoveTo int
  | SetStepCallback "nat option"
  | SetCurrentStep int
  | SetLastPosition int

fun perform :: "request \<Rightarrow> MotorControl \<Rightarrow> MotorControl" where
  "perform (Update t) s = update t s"
| "perform (ActivateMotor d) s = activateMotor d s"
| "perform DeactivateMotor s = deactivateMotor s"
| "perform StepMotor s = stepMotor s"
| "perform (MoveTo t) s = moveTo t s"
| "perform (SetStepCallback f) s = setStepCallback f s"
| "perform (SetCurrentStep c) s = setCurrentStep c s"
| "perform (SetLastPosition p) s = setLastPosition p s"

text \<open>
  What the functions behind the addresses do: handed a position, and seeing the driver
  and its log, the function at an address makes a list of requests.
\<close>

type_synonym observers = "nat \<Rightarrow> int \<Rightarrow> MotorControl \<Rightarrow> request list"

text \<open>The call \<^verbatim>\<open>m_stepCallback(m_currentStep)\<close>: logged, then the requests are performed.\<close>

definition invoke_stepCallback :: "observers \<Rightarrow> MotorControl \<Rightarrow> MotorControl" where
  "invoke_stepCallback obs s =
    (case m_stepCallback s of
       None \<Rightarrow> s
     | Some f \<Rightarrow>
         (let s1 = log_events [StepCallback f (sint (m_currentStep s))] s
          in fold perform (obs f (sint (m_currentStep s)) s1) s1))"

text \<open>One round of the loop of \<^verbatim>\<open>moveToSync\<close>: step, wait, notify.\<close>

definition moveToSync_body :: "observers \<Rightarrow> MotorControl \<Rightarrow> MotorControl" where
  "moveToSync_body obs s =
    invoke_stepCallback obs (log_events [Delay stepDelay] (stepMotor s))"

text \<open>The loop may run forever; \<open>None\<close> is the call that does not return.\<close>

partial_function (option) moveToSync_loop :: "observers \<Rightarrow> MotorControl \<Rightarrow> MotorControl option" where
  "moveToSync_loop obs s =
    (if m_motorActive s \<and> m_currentStep s \<noteq> m_targetStep s
     then moveToSync_loop obs (moveToSync_body obs s)
     else Some s)"

declare moveToSync_loop.simps [code]

definition moveToSync :: "observers \<Rightarrow> int \<Rightarrow> MotorControl \<Rightarrow> MotorControl option" where
  "moveToSync obs targetStep s =
    (let s1 = s\<lparr>m_targetStep :=
                 word_of_int (constrain targetStep (sint (m_minStep s)) (sint (m_maxStep s)))\<rparr>
     in if m_currentStep s1 = m_targetStep s1 then Some s1
        else map_option deactivateMotor
               (moveToSync_loop obs
                  (activateMotor (sint (m_targetStep s1) > sint (m_currentStep s1)) s1)))"

subsection \<open>The public interface as a type of calls\<close>

datatype call = Request request | MoveToSync int

fun exec :: "observers \<Rightarrow> call \<Rightarrow> MotorControl \<Rightarrow> MotorControl option" where
  "exec obs (Request r) s = Some (perform r s)"
| "exec obs (MoveToSync t) s = moveToSync obs t s"

fun run :: "observers \<Rightarrow> call list \<Rightarrow> MotorControl \<Rightarrow> MotorControl option" where
  "run obs [] s = Some s"
| "run obs (c # cs) s = (case exec obs c s of None \<Rightarrow> None | Some s' \<Rightarrow> run obs cs s')"

subsection \<open>Observations on the log and on runs\<close>

fun is_write :: "event \<Rightarrow> bool" where
  "is_write (DigitalWrite p v) = True"
| "is_write e = False"

fun is_mode :: "event \<Rightarrow> bool" where
  "is_mode (PinMode p m) = True"
| "is_mode e = False"

definition pin_writes :: "MotorControl \<Rightarrow> event list" where
  "pin_writes s = filter is_write (io_log s)"

definition transitions :: "MotorControl \<Rightarrow> event list" where
  "transitions s = filter is_mode (io_log s)"

text \<open>The positions handed to the observer, oldest first.\<close>

fun observed :: "event list \<Rightarrow> int list" where
  "observed [] = []"
| "observed (StepCallback f p # es) = p # observed es"
| "observed (e # es) = observed es"

definition table_row :: "nat \<Rightarrow> level option list" where
  "table_row r = map Some (fullSteps ! r)"

text \<open>The positions passed through on the way from \<open>a\<close> to \<open>b\<close>, after each step.\<close>

definition path :: "int \<Rightarrow> int \<Rightarrow> int list" where
  "path a b = (if a \<le> b then [a + 1 .. b] else rev [b .. a - 1])"

text \<open>Successive readings of the clock, each at least \<open>stepDelay\<close> after the one before
  (in the arithmetic of the clock, which wraps).\<close>

fun paced :: "millis list \<Rightarrow> bool" where
  "paced [] = True"
| "paced [t] = True"
| "paced (t # u # ts) = (stepDelay \<le> u - t \<and> paced (u # ts))"

definition run_updates :: "millis list \<Rightarrow> MotorControl \<Rightarrow> MotorControl" where
  "run_updates ts s = fold update ts s"

definition target_in_bounds :: "MotorControl \<Rightarrow> bool" where
  "target_in_bounds s =
    (sint (m_minStep s) \<le> sint (m_targetStep s) \<and> sint (m_targetStep s) \<le> sint (m_maxStep s))"

text \<open>A driver on its way: active, with the target not behind it.\<close>

definition seeking :: "MotorControl \<Rightarrow> bool" where
  "seeking s = (m_motorActive s \<and>
     (if m_clockwise s then sint (m_currentStep s) \<le> sint (m_targetStep s)
      else sint (m_targetStep s) \<le> sint (m_currentStep s)))"

text \<open>Observers: one that makes no request, and one that deactivates the driver when it
  is handed a given position.\<close>

definition quiet :: observers where
  "quiet f p s = []"

definition stop_at :: "int \<Rightarrow> observers" where
  "stop_at q f p s = (if p = q then [DeactivateMotor] else [])"

text \<open>A driver fresh from the constructor, on pins 8 to 11, with the bounds of the
  scenario of the specification.\<close>

definition pins0 :: "nat \<Rightarrow> int" where
  "pins0 i = int i + 8"

definition motor0 :: MotorControl where
  "motor0 = new_MotorControl pins0 0 200"

section \<open>Properties\<close>

subsection \<open>Auxiliary facts\<close>

lemma c_rem_nonneg: "0 \<le> a \<Longrightarrow> c_rem a 4 = a mod 4"
  by (cases "a = 0") (simp_all add: c_rem_def)

lemma sint_c_int_range: "- 2147483648 \<le> sint (a :: c_int) \<and> sint a \<le> 2147483647"
  using sint_ge [of a] sint_lt [of a] by simp

lemma sint_word_of_int_c_int:
  "- 2147483648 \<le> x \<Longrightarrow> x \<le> 2147483647 \<Longrightarrow> sint (word_of_int x :: c_int) = x"
  by (simp add: sint_sbintrunc' signed_take_bit_int_eq_self)

lemma sint_add_nat:
  "sint (a :: c_int) + int n \<le> 2147483647 \<Longrightarrow> sint (a + of_nat n) = sint a + int n"
proof -
  assume b: "sint a + int n \<le> 2147483647"
  have "a + of_nat n = word_of_int (sint a + int n)" by simp
  moreover from b sint_c_int_range [of a] have "sint (word_of_int (sint a + int n) :: c_int) = sint a + int n"
    by (intro sint_word_of_int_c_int) simp_all
  ultimately show ?thesis by simp
qed

lemma sint_sub_nat:
  "- 2147483648 \<le> sint (a :: c_int) - int n \<Longrightarrow> sint (a - of_nat n) = sint a - int n"
proof -
  assume b: "- 2147483648 \<le> sint a - int n"
  have "a - of_nat n = word_of_int (sint a - int n)" by simp
  moreover from b sint_c_int_range [of a] have "sint (word_of_int (sint a - int n) :: c_int) = sint a - int n"
    by (intro sint_word_of_int_c_int) simp_all
  ultimately show ?thesis by simp
qed

lemma sint_succ: "sint (a :: c_int) < sint (b :: c_int) \<Longrightarrow> sint (a + 1) = sint a + 1"
  using sint_add_nat [of a 1] sint_c_int_range [of b] by simp

lemma sint_pred: "sint (b :: c_int) < sint (a :: c_int) \<Longrightarrow> sint (a - 1) = sint a - 1"
  using sint_sub_nat [of a 1] sint_c_int_range [of b] by simp

lemma sint_eq_iff_c_int: "sint (a :: c_int) = sint b \<longleftrightarrow> a = b"
  by (auto intro: signed_word_eqI)

lemma constrain_range:
  "- 2147483648 \<le> constrain t (sint (a :: c_int)) (sint (b :: c_int)) \<and>
   constrain t (sint a) (sint b) \<le> 2147483647"
  using sint_c_int_range [of a] sint_c_int_range [of b] by (auto simp: constrain_def)

lemma sint_constrain:
  "sint (word_of_int (constrain t (sint (a :: c_int)) (sint (b :: c_int))) :: c_int) =
     constrain t (sint a) (sint b)"
  using constrain_range [of t a b] by (simp add: sint_word_of_int_c_int)

lemma stepIndex_in_table: "0 \<le> cur \<Longrightarrow> 0 \<le> stepIndex cw cur \<and> stepIndex cw cur < stepCount"
  using pos_mod_bound [of 4 cur] pos_mod_sign [of 4 cur]
  by (auto simp: stepIndex_def stepCount_def c_rem_nonneg)

lemma c_rem_neg: "a < 0 \<Longrightarrow> c_rem a 4 = - ((- a) mod 4)"
  by (simp add: c_rem_def)

lemma stepIndex_in_table_iff:
  "0 \<le> stepIndex cw cur \<and> stepIndex cw cur < stepCount \<longleftrightarrow> 0 \<le> cur \<or> cur mod 4 = 0"
proof (cases "0 \<le> cur")
  case True
  with stepIndex_in_table [of cur cw] show ?thesis by simp
next
  case False
  then have r: "c_rem cur 4 = - ((- cur) mod 4)" by (simp add: c_rem_neg)
  have "0 \<le> (- cur) mod 4" "(- cur) mod 4 < 4" by simp_all
  moreover have "(- cur) mod 4 = 0 \<longleftrightarrow> cur mod 4 = 0" by presburger
  ultimately show ?thesis using False
    by (auto simp: stepIndex_def stepCount_def r)
qed

lemma stepIndex_cw_succ: "0 \<le> cur \<Longrightarrow> stepIndex True (cur + 1) = (stepIndex True cur + 1) mod 4"
  by (simp add: stepIndex_def stepCount_def c_rem_nonneg mod_simps)

lemma stepIndex_ccw_pred: "0 < cur \<Longrightarrow> stepIndex False (cur - 1) = (stepIndex False cur + 1) mod 4"
proof -
  assume "0 < cur"
  then have a: "c_rem cur 4 = cur mod 4" "c_rem (cur - 1) 4 = (cur - 1) mod 4"
    by (simp_all add: c_rem_nonneg)
  show ?thesis unfolding stepIndex_def stepCount_def a by presburger
qed

lemma log_events_fields [simp]:
  "io_log (log_events es s) = io_log s @ es"
  "m_stepPins (log_events es s) = m_stepPins s"
  "m_minStep (log_events es s) = m_minStep s"
  "m_maxStep (log_events es s) = m_maxStep s"
  "m_stepCallback (log_events es s) = m_stepCallback s"
  "m_targetStep (log_events es s) = m_targetStep s"
  "m_currentStep (log_events es s) = m_currentStep s"
  "m_lastStepTime (log_events es s) = m_lastStepTime s"
  "m_lastPosition (log_events es s) = m_lastPosition s"
  "m_clockwise (log_events es s) = m_clockwise s"
  "m_motorActive (log_events es s) = m_motorActive s"
  by (simp_all add: log_events_def)

lemma stepMotor_fields [simp]:
  "m_currentStep (stepMotor s) = m_currentStep s + (if m_clockwise s then 1 else - 1)"
  "m_stepPins (stepMotor s) = m_stepPins s"
  "m_minStep (stepMotor s) = m_minStep s"
  "m_maxStep (stepMotor s) = m_maxStep s"
  "m_stepCallback (stepMotor s) = m_stepCallback s"
  "m_targetStep (stepMotor s) = m_targetStep s"
  "m_lastStepTime (stepMotor s) = m_lastStepTime s"
  "m_lastPosition (stepMotor s) = m_lastPosition s"
  "m_clockwise (stepMotor s) = m_clockwise s"
  "m_motorActive (stepMotor s) = m_motorActive s"
  by (simp_all add: stepMotor_def)

lemma stepMotor_io:
  "io_log (stepMotor s) = io_log s @
     map (\<lambda>i. DigitalWrite (m_stepPins s i)
                 (fullSteps_at (stepIndex (m_clockwise s) (sint (m_currentStep s))) i)) [0..<4]"
  by (simp add: stepMotor_def)

lemma activateMotor_fields [simp]:
  "m_currentStep (activateMotor d s) = m_currentStep s"
  "m_stepPins (activateMotor d s) = m_stepPins s"
  "m_minStep (activateMotor d s) = m_minStep s"
  "m_maxStep (activateMotor d s) = m_maxStep s"
  "m_stepCallback (activateMotor d s) = m_stepCallback s"
  "m_targetStep (activateMotor d s) = m_targetStep s"
  "m_lastStepTime (activateMotor d s) = m_lastStepTime s"
  "m_lastPosition (activateMotor d s) = m_currentStep s"
  "m_clockwise (activateMotor d s) = d"
  "m_motorActive (activateMotor d s) = True"
  by (simp_all add: activateMotor_def)

lemma activateMotor_io:
  "io_log (activateMotor d s) = io_log s @
     concat (map (\<lambda>i. [PinMode (m_stepPins s i) OUTPUT,
                         DigitalWrite (m_stepPins s i) (Some LOW)]) [0..<4])"
  by (simp add: activateMotor_def)

lemma deactivateMotor_fields [simp]:
  "m_currentStep (deactivateMotor s) = m_currentStep s"
  "m_stepPins (deactivateMotor s) = m_stepPins s"
  "m_minStep (deactivateMotor s) = m_minStep s"
  "m_maxStep (deactivateMotor s) = m_maxStep s"
  "m_stepCallback (deactivateMotor s) = m_stepCallback s"
  "m_targetStep (deactivateMotor s) = m_targetStep s"
  "m_lastStepTime (deactivateMotor s) = m_lastStepTime s"
  "m_lastPosition (deactivateMotor s) = m_currentStep s"
  "m_clockwise (deactivateMotor s) = m_clockwise s"
  "m_motorActive (deactivateMotor s) = False"
  by (simp_all add: deactivateMotor_def)

lemma deactivateMotor_io:
  "io_log (deactivateMotor s) = io_log s @ map (\<lambda>i. PinMode (m_stepPins s i) INPUT) [0..<4]"
  by (simp add: deactivateMotor_def)

lemma upt_4: "[0..<4] = [0, 1, 2, 3]"
  by (simp add: upt_rec)

lemma pin_writes_activateMotor: "length (pin_writes (activateMotor d s)) = length (pin_writes s) + 4"
  by (simp add: pin_writes_def activateMotor_io upt_4)

lemma pin_writes_deactivateMotor: "pin_writes (deactivateMotor s) = pin_writes s"
  by (simp add: pin_writes_def deactivateMotor_io upt_4)

lemma pin_writes_stepMotor: "pin_writes (stepMotor s) \<noteq> pin_writes s"
  by (simp add: pin_writes_def stepMotor_io upt_4)

lemma transitions_deactivateMotor: "transitions (deactivateMotor s) \<noteq> transitions s"
  by (simp add: transitions_def deactivateMotor_io upt_4)

lemma transitions_activateMotor: "transitions (activateMotor d s) \<noteq> transitions s"
  by (simp add: transitions_def activateMotor_io upt_4)

lemma update_fields [simp]:
  "m_stepPins (update t s) = m_stepPins s"
  "m_minStep (update t s) = m_minStep s"
  "m_maxStep (update t s) = m_maxStep s"
  "m_stepCallback (update t s) = m_stepCallback s"
  "m_targetStep (update t s) = m_targetStep s"
  by (simp_all add: update_def)

lemma moveTo_fields [simp]:
  "m_stepPins (moveTo t s) = m_stepPins s"
  "m_minStep (moveTo t s) = m_minStep s"
  "m_maxStep (moveTo t s) = m_maxStep s"
  "m_stepCallback (moveTo t s) = m_stepCallback s"
  "m_targetStep (moveTo t s) = word_of_int (constrain t (sint (m_minStep s)) (sint (m_maxStep s)))"
  "m_currentStep (moveTo t s) = m_currentStep s"
  "m_lastStepTime (moveTo t s) = m_lastStepTime s"
  by (simp_all add: moveTo_def Let_def)

lemma moveTo_target: "sint (m_targetStep (moveTo t s)) = constrain t (sint (m_minStep s)) (sint (m_maxStep s))"
  by (simp add: sint_constrain)

lemma constrain_in_bounds: "low \<le> high \<Longrightarrow> low \<le> constrain amt low high \<and> constrain amt low high \<le> high"
  by (simp add: constrain_def)

lemma perform_bounds [simp]:
  "m_minStep (perform r s) = m_minStep s"
  "m_maxStep (perform r s) = m_maxStep s"
  by (cases r; simp add: setStepCallback_def setCurrentStep_def setLastPosition_def)+

lemma perform_target:
  "m_targetStep (perform r s) = m_targetStep s \<or>
   (\<exists>t. sint (m_targetStep (perform r s)) = constrain t (sint (m_minStep s)) (sint (m_maxStep s)))"
  by (cases r) (auto simp: setStepCallback_def setCurrentStep_def setLastPosition_def sint_constrain)

lemma perform_target_in_bounds:
  assumes "sint (m_minStep s) \<le> sint (m_maxStep s)" and "target_in_bounds s"
  shows "target_in_bounds (perform r s)"
  using perform_target [of r s] assms constrain_in_bounds [OF assms(1)]
  by (auto simp: target_in_bounds_def)

lemma perform_io: "\<exists>es. io_log (perform r s) = io_log s @ es"
  by (cases r) (auto simp: setStepCallback_def setCurrentStep_def setLastPosition_def update_def
      moveTo_def Let_def activateMotor_io deactivateMotor_io stepMotor_io)

lemma fold_perform_bounds [simp]:
  "m_minStep (fold perform rs s) = m_minStep s"
  "m_maxStep (fold perform rs s) = m_maxStep s"
  by (induction rs arbitrary: s) simp_all

lemma fold_perform_target_in_bounds:
  "sint (m_minStep s) \<le> sint (m_maxStep s) \<Longrightarrow> target_in_bounds s \<Longrightarrow>
   target_in_bounds (fold perform rs s)"
  by (induction rs arbitrary: s) (simp_all add: perform_target_in_bounds)

lemma fold_perform_io: "\<exists>es. io_log (fold perform rs s) = io_log s @ es"
proof (induction rs arbitrary: s)
  case Nil
  show ?case by simp
next
  case (Cons r rs)
  obtain es1 where "io_log (perform r s) = io_log s @ es1"
    using perform_io by blast
  moreover obtain es2 where "io_log (fold perform rs (perform r s)) = io_log (perform r s) @ es2"
    using Cons.IH by blast
  ultimately show ?case by simp
qed

lemma invoke_stepCallback_bounds [simp]:
  "m_minStep (invoke_stepCallback obs s) = m_minStep s"
  "m_maxStep (invoke_stepCallback obs s) = m_maxStep s"
  by (simp_all add: invoke_stepCallback_def Let_def split: option.split)

lemma invoke_stepCallback_target_in_bounds:
  assumes "sint (m_minStep s) \<le> sint (m_maxStep s)" and "target_in_bounds s"
  shows "target_in_bounds (invoke_stepCallback obs s)"
proof (cases "m_stepCallback s")
  case None
  with assms show ?thesis by (simp add: invoke_stepCallback_def)
next
  case (Some f)
  let ?s1 = "log_events [StepCallback f (sint (m_currentStep s))] s"
  from assms have "sint (m_minStep ?s1) \<le> sint (m_maxStep ?s1)" and "target_in_bounds ?s1"
    by (simp_all add: target_in_bounds_def)
  then have "target_in_bounds (fold perform (obs f (sint (m_currentStep s)) ?s1) ?s1)"
    by (rule fold_perform_target_in_bounds)
  with Some show ?thesis by (simp add: invoke_stepCallback_def Let_def)
qed

lemma invoke_stepCallback_io: "\<exists>es. io_log (invoke_stepCallback obs s) = io_log s @ es"
proof (cases "m_stepCallback s")
  case None
  then show ?thesis by (simp add: invoke_stepCallback_def)
next
  case (Some f)
  let ?s1 = "log_events [StepCallback f (sint (m_currentStep s))] s"
  obtain es where "io_log (fold perform (obs f (sint (m_currentStep s)) ?s1) ?s1) = io_log ?s1 @ es"
    using fold_perform_io by blast
  with Some show ?thesis by (simp add: invoke_stepCallback_def Let_def)
qed

lemma invoke_stepCallback_quiet:
  "invoke_stepCallback quiet s =
     (case m_stepCallback s of None \<Rightarrow> s
      | Some f \<Rightarrow> log_events [StepCallback f (sint (m_currentStep s))] s)"
  by (simp add: invoke_stepCallback_def quiet_def Let_def split: option.split)

lemma invoke_stepCallback_inert:
  "\<forall>f p s'. m_stepCallback s = Some f \<longrightarrow> obs f p s' = [] \<Longrightarrow>
   invoke_stepCallback obs s = invoke_stepCallback quiet s"
  by (simp add: invoke_stepCallback_def quiet_def Let_def split: option.split)

lemma moveToSync_body_inert:
  "\<forall>f p s'. m_stepCallback s = Some f \<longrightarrow> obs f p s' = [] \<Longrightarrow>
   moveToSync_body obs s = moveToSync_body quiet s"
  by (simp add: moveToSync_body_def invoke_stepCallback_inert)

lemma moveToSync_body_bounds [simp]:
  "m_minStep (moveToSync_body obs s) = m_minStep s"
  "m_maxStep (moveToSync_body obs s) = m_maxStep s"
  by (simp_all add: moveToSync_body_def)

lemma moveToSync_body_target_in_bounds:
  "sint (m_minStep s) \<le> sint (m_maxStep s) \<Longrightarrow> target_in_bounds s \<Longrightarrow>
   target_in_bounds (moveToSync_body obs s)"
  unfolding moveToSync_body_def
  by (rule invoke_stepCallback_target_in_bounds) (simp_all add: target_in_bounds_def)

lemma moveToSync_body_io: "\<exists>es. io_log (moveToSync_body obs s) = io_log s @ es"
proof -
  obtain es where "io_log (moveToSync_body obs s) =
      io_log (log_events [Delay stepDelay] (stepMotor s)) @ es"
    unfolding moveToSync_body_def using invoke_stepCallback_io by blast
  then show ?thesis by (simp add: stepMotor_io)
qed

lemma quiet_body_fields [simp]:
  "m_currentStep (moveToSync_body quiet s) = m_currentStep s + (if m_clockwise s then 1 else - 1)"
  "m_stepPins (moveToSync_body quiet s) = m_stepPins s"
  "m_stepCallback (moveToSync_body quiet s) = m_stepCallback s"
  "m_targetStep (moveToSync_body quiet s) = m_targetStep s"
  "m_lastStepTime (moveToSync_body quiet s) = m_lastStepTime s"
  "m_lastPosition (moveToSync_body quiet s) = m_lastPosition s"
  "m_clockwise (moveToSync_body quiet s) = m_clockwise s"
  "m_motorActive (moveToSync_body quiet s) = m_motorActive s"
  by (simp_all add: moveToSync_body_def invoke_stepCallback_quiet split: option.split)

lemma quiet_body_io:
  "io_log (moveToSync_body quiet s) = io_log (stepMotor s) @ Delay stepDelay #
     (case m_stepCallback s of None \<Rightarrow> []
      | Some f \<Rightarrow> [StepCallback f (sint (m_currentStep s + (if m_clockwise s then 1 else - 1)))])"
  by (simp add: moveToSync_body_def invoke_stepCallback_quiet split: option.split)

lemma observed_append: "observed (xs @ ys) = observed xs @ observed ys"
  by (induction xs rule: observed.induct) simp_all

lemma observed_quiet_body:
  "observed (io_log (moveToSync_body quiet s)) = observed (io_log s) @
     (if m_stepCallback s = None then []
      else [sint (m_currentStep s + (if m_clockwise s then 1 else - 1))])"
  by (simp add: quiet_body_io stepMotor_io upt_4 observed_append split: option.split)

lemma pin_writes_quiet_body:
  "length (pin_writes (moveToSync_body quiet s)) = length (pin_writes s) + 4"
  by (simp add: pin_writes_def quiet_body_io stepMotor_io upt_4 split: option.split)

lemma rounds_fields [simp]:
  "m_stepPins ((moveToSync_body quiet ^^ n) s) = m_stepPins s"
  "m_minStep ((moveToSync_body quiet ^^ n) s) = m_minStep s"
  "m_maxStep ((moveToSync_body quiet ^^ n) s) = m_maxStep s"
  "m_stepCallback ((moveToSync_body quiet ^^ n) s) = m_stepCallback s"
  "m_targetStep ((moveToSync_body quiet ^^ n) s) = m_targetStep s"
  "m_lastStepTime ((moveToSync_body quiet ^^ n) s) = m_lastStepTime s"
  "m_lastPosition ((moveToSync_body quiet ^^ n) s) = m_lastPosition s"
  "m_clockwise ((moveToSync_body quiet ^^ n) s) = m_clockwise s"
  "m_motorActive ((moveToSync_body quiet ^^ n) s) = m_motorActive s"
  by (induction n) simp_all

lemma rounds_currentStep:
  "m_currentStep ((moveToSync_body quiet ^^ n) s) =
     m_currentStep s + (if m_clockwise s then of_nat n else - of_nat n)"
  by (induction n) simp_all

lemma rounds_pin_writes:
  "length (pin_writes ((moveToSync_body quiet ^^ n) s)) = length (pin_writes s) + 4 * n"
  by (induction n) (simp_all add: pin_writes_quiet_body)

lemma rounds_inert:
  "\<forall>f p s'. m_stepCallback s = Some f \<longrightarrow> obs f p s' = [] \<Longrightarrow>
   (moveToSync_body obs ^^ n) s = (moveToSync_body quiet ^^ n) s"
  by (induction n) (simp_all add: moveToSync_body_inert)

lemma path_up_snoc: "a \<le> b \<Longrightarrow> path a (b + 1) = path a b @ [b + 1]"
  by (simp add: path_def upto_rec2)

lemma path_down_snoc: "b \<le> a \<Longrightarrow> path a (b - 1) = path a b @ [b - 1]"
proof (cases "a = b")
  case True
  then show ?thesis by (simp add: path_def)
next
  case False
  assume "b \<le> a"
  with False have "b < a" by simp
  then have "[b - 1 .. a - 1] = (b - 1) # [b .. a - 1]"
    by (simp add: upto_rec1)
  with \<open>b < a\<close> show ?thesis by (simp add: path_def)
qed

lemma path_self: "path a a = []"
  by (simp add: path_def)

lemma length_path: "length (path a b) = nat \<bar>b - a\<bar>"
  by (simp add: path_def)

lemma rounds_observed_up:
  "m_clockwise s \<Longrightarrow> sint (m_currentStep s) + int n \<le> 2147483647 \<Longrightarrow>
   observed (io_log ((moveToSync_body quiet ^^ n) s)) = observed (io_log s) @
     (if m_stepCallback s = None then []
      else path (sint (m_currentStep s)) (sint (m_currentStep s) + int n))"
proof (induction n)
  case 0
  show ?case by (simp add: path_self)
next
  case (Suc n)
  let ?c = "sint (m_currentStep s)"
  from Suc.prems have cur: "sint (m_currentStep s + of_nat n + 1) = ?c + int n + 1"
    using sint_add_nat [of "m_currentStep s" "Suc n"] by (simp add: algebra_simps)
  have "path ?c (?c + int n + 1) = path ?c (?c + int n) @ [?c + int n + 1]"
    by (rule path_up_snoc) simp
  with Suc cur show ?case
    by (simp add: observed_quiet_body rounds_currentStep algebra_simps)
qed

lemma rounds_observed_down:
  "\<not> m_clockwise s \<Longrightarrow> - 2147483648 \<le> sint (m_currentStep s) - int n \<Longrightarrow>
   observed (io_log ((moveToSync_body quiet ^^ n) s)) = observed (io_log s) @
     (if m_stepCallback s = None then []
      else path (sint (m_currentStep s)) (sint (m_currentStep s) - int n))"
proof (induction n)
  case 0
  show ?case by (simp add: path_self)
next
  case (Suc n)
  let ?c = "sint (m_currentStep s)"
  from Suc.prems have cur: "sint (m_currentStep s - of_nat n - 1) = ?c - int n - 1"
    using sint_sub_nat [of "m_currentStep s" "Suc n"] by (simp add: algebra_simps)
  have "path ?c (?c - int n - 1) = path ?c (?c - int n) @ [?c - int n - 1]"
    by (rule path_down_snoc) simp
  with Suc cur show ?case
    by (simp add: observed_quiet_body rounds_currentStep algebra_simps)
qed

lemma seeking_quiet_body:
  assumes "seeking s" and "m_currentStep s \<noteq> m_targetStep s"
  shows "seeking (moveToSync_body quiet s) \<and>
         Suc (nat \<bar>sint (m_targetStep s) - sint (m_currentStep (moveToSync_body quiet s))\<bar>) =
           nat \<bar>sint (m_targetStep s) - sint (m_currentStep s)\<bar>"
proof (cases "m_clockwise s")
  case True
  with assms have "sint (m_currentStep s) < sint (m_targetStep s)"
    by (auto simp: seeking_def order_less_le sint_eq_iff_c_int)
  then have "sint (m_currentStep s + 1) = sint (m_currentStep s) + 1"
    and "sint (m_currentStep s) < sint (m_targetStep s)"
    by (simp_all add: sint_succ)
  with True assms(1) show ?thesis by (simp add: seeking_def)
next
  case False
  with assms have "sint (m_targetStep s) < sint (m_currentStep s)"
    by (auto simp: seeking_def order_less_le sint_eq_iff_c_int)
  then have "sint (m_currentStep s - 1) = sint (m_currentStep s) - 1"
    and "sint (m_targetStep s) < sint (m_currentStep s)"
    by (simp_all add: sint_pred)
  with False assms(1) show ?thesis by (simp add: seeking_def)
qed

lemma moveToSync_loop_rounds:
  "seeking s \<Longrightarrow> \<forall>f p s'. m_stepCallback s = Some f \<longrightarrow> obs f p s' = [] \<Longrightarrow>
   nat \<bar>sint (m_targetStep s) - sint (m_currentStep s)\<bar> = n \<Longrightarrow>
   moveToSync_loop obs s = Some ((moveToSync_body quiet ^^ n) s)"
proof (induction n arbitrary: s)
  case 0
  then have "m_currentStep s = m_targetStep s"
    by (simp add: sint_eq_iff_c_int [symmetric])
  then show ?case by (subst moveToSync_loop.simps) simp
next
  case (Suc n)
  from Suc.prems have ne: "m_currentStep s \<noteq> m_targetStep s" and act: "m_motorActive s"
    by (auto simp: seeking_def)
  from Suc.prems(2) have body: "moveToSync_body obs s = moveToSync_body quiet s"
    by (rule moveToSync_body_inert)
  from seeking_quiet_body [OF Suc.prems(1) ne] Suc.prems(3)
  have "seeking (moveToSync_body quiet s)"
    and "nat \<bar>sint (m_targetStep (moveToSync_body quiet s)) -
              sint (m_currentStep (moveToSync_body quiet s))\<bar> = n"
    by simp_all
  moreover from Suc.prems(2)
  have "\<forall>f p s'. m_stepCallback (moveToSync_body quiet s) = Some f \<longrightarrow> obs f p s' = []"
    by simp
  ultimately have "moveToSync_loop obs (moveToSync_body quiet s) =
      Some ((moveToSync_body quiet ^^ n) (moveToSync_body quiet s))"
    by (intro Suc.IH)
  with ne act body show ?case
    by (subst moveToSync_loop.simps) (simp add: funpow_swap1)
qed

lemma moveToSync_unfold:
  "moveToSync obs target s =
     (if sint (m_currentStep s) = constrain target (sint (m_minStep s)) (sint (m_maxStep s))
      then Some (s\<lparr>m_targetStep :=
                    word_of_int (constrain target (sint (m_minStep s)) (sint (m_maxStep s)))\<rparr>)
      else map_option deactivateMotor
        (moveToSync_loop obs
          (activateMotor
            (sint (m_currentStep s) < constrain target (sint (m_minStep s)) (sint (m_maxStep s)))
            (s\<lparr>m_targetStep :=
                 word_of_int (constrain target (sint (m_minStep s)) (sint (m_maxStep s)))\<rparr>))))"
proof -
  have "m_currentStep s = word_of_int (constrain target (sint (m_minStep s)) (sint (m_maxStep s)))
      \<longleftrightarrow> sint (m_currentStep s) = constrain target (sint (m_minStep s)) (sint (m_maxStep s))"
    by (simp add: sint_eq_iff_c_int [symmetric] sint_constrain)
  then show ?thesis
    by (simp add: moveToSync_def Let_def sint_constrain)
qed

lemma moveToSync_eq:
  assumes "\<forall>f p s'. m_stepCallback s = Some f \<longrightarrow> obs f p s' = []"
  shows "moveToSync obs target s =
     (if sint (m_currentStep s) = constrain target (sint (m_minStep s)) (sint (m_maxStep s))
      then Some (s\<lparr>m_targetStep :=
                    word_of_int (constrain target (sint (m_minStep s)) (sint (m_maxStep s)))\<rparr>)
      else Some (deactivateMotor
        ((moveToSync_body quiet ^^
            nat \<bar>constrain target (sint (m_minStep s)) (sint (m_maxStep s)) - sint (m_currentStep s)\<bar>)
          (activateMotor
            (sint (m_currentStep s) < constrain target (sint (m_minStep s)) (sint (m_maxStep s)))
            (s\<lparr>m_targetStep :=
                 word_of_int (constrain target (sint (m_minStep s)) (sint (m_maxStep s)))\<rparr>)))))"
proof -
  define tgt where "tgt = constrain target (sint (m_minStep s)) (sint (m_maxStep s))"
  define s2 where "s2 = activateMotor (sint (m_currentStep s) < tgt) (s\<lparr>m_targetStep := word_of_int tgt\<rparr>)"
  have tgt: "sint (word_of_int tgt :: c_int) = tgt"
    unfolding tgt_def by (rule sint_constrain)
  show ?thesis
  proof (cases "sint (m_currentStep s) = tgt")
    case True
    then show ?thesis
      by (simp add: moveToSync_unfold tgt_def [symmetric])
  next
    case False
    then have "seeking s2"
      by (auto simp: seeking_def s2_def tgt)
    moreover from assms have "\<forall>f p s'. m_stepCallback s2 = Some f \<longrightarrow> obs f p s' = []"
      by (simp add: s2_def)
    moreover have "nat \<bar>sint (m_targetStep s2) - sint (m_currentStep s2)\<bar> =
        nat \<bar>tgt - sint (m_currentStep s)\<bar>"
      by (simp add: s2_def tgt)
    ultimately have "moveToSync_loop obs s2 =
        Some ((moveToSync_body quiet ^^ nat \<bar>tgt - sint (m_currentStep s)\<bar>) s2)"
      by (rule moveToSync_loop_rounds)
    with False show ?thesis
      by (simp add: moveToSync_unfold tgt_def [symmetric] s2_def [symmetric])
  qed
qed

lemma moveToSync_quiet_returns: "\<exists>s'. moveToSync quiet t s = Some s'"
  by (simp add: moveToSync_eq quiet_def)

lemma moveToSync_loop_io:
  assumes "moveToSync_loop obs s = Some z"
  shows "\<exists>es. io_log z = io_log s @ es"
proof (rule moveToSync_loop.raw_induct [where P = "\<lambda>obs s z. \<exists>es. io_log z = io_log s @ es"])
  fix loop :: "observers \<Rightarrow> MotorControl \<Rightarrow> MotorControl option" and obs s z
  assume IH: "\<And>obs s y. loop obs s = Some y \<Longrightarrow> \<exists>es. io_log y = io_log s @ es"
    and eq: "(if m_motorActive s \<and> m_currentStep s \<noteq> m_targetStep s
              then loop obs (moveToSync_body obs s) else Some s) = Some z"
  show "\<exists>es. io_log z = io_log s @ es"
  proof (cases "m_motorActive s \<and> m_currentStep s \<noteq> m_targetStep s")
    case True
    with eq have "loop obs (moveToSync_body obs s) = Some z" by simp
    then obtain es where "io_log z = io_log (moveToSync_body obs s) @ es"
      using IH by blast
    moreover obtain es' where "io_log (moveToSync_body obs s) = io_log s @ es'"
      using moveToSync_body_io by blast
    ultimately show ?thesis by simp
  next
    case False
    with eq show ?thesis by auto
  qed
next
  show "moveToSync_loop obs s = Some z" by fact
qed

lemma moveToSync_loop_bounds:
  assumes "moveToSync_loop obs s = Some z"
  shows "m_minStep z = m_minStep s \<and> m_maxStep z = m_maxStep s \<and>
   (sint (m_minStep s) \<le> sint (m_maxStep s) \<longrightarrow> target_in_bounds s \<longrightarrow> target_in_bounds z)"
proof (rule moveToSync_loop.raw_induct [where P = "\<lambda>obs s z.
    m_minStep z = m_minStep s \<and> m_maxStep z = m_maxStep s \<and>
    (sint (m_minStep s) \<le> sint (m_maxStep s) \<longrightarrow> target_in_bounds s \<longrightarrow> target_in_bounds z)"])
  fix loop :: "observers \<Rightarrow> MotorControl \<Rightarrow> MotorControl option" and obs s z
  assume IH: "\<And>obs s y. loop obs s = Some y \<Longrightarrow>
      m_minStep y = m_minStep s \<and> m_maxStep y = m_maxStep s \<and>
      (sint (m_minStep s) \<le> sint (m_maxStep s) \<longrightarrow> target_in_bounds s \<longrightarrow> target_in_bounds y)"
    and eq: "(if m_motorActive s \<and> m_currentStep s \<noteq> m_targetStep s
              then loop obs (moveToSync_body obs s) else Some s) = Some z"
  show "m_minStep z = m_minStep s \<and> m_maxStep z = m_maxStep s \<and>
    (sint (m_minStep s) \<le> sint (m_maxStep s) \<longrightarrow> target_in_bounds s \<longrightarrow> target_in_bounds z)"
  proof (cases "m_motorActive s \<and> m_currentStep s \<noteq> m_targetStep s")
    case True
    with eq have "loop obs (moveToSync_body obs s) = Some z" by simp
    from IH [OF this] show ?thesis
      by (auto dest: moveToSync_body_target_in_bounds)
  next
    case False
    with eq show ?thesis by auto
  qed
next
  show "moveToSync_loop obs s = Some z" by fact
qed

lemma moveToSync_frame:
  assumes "moveToSync obs t s = Some s'"
  shows "m_minStep s' = m_minStep s \<and> m_maxStep s' = m_maxStep s \<and>
         (sint (m_minStep s) \<le> sint (m_maxStep s) \<longrightarrow> target_in_bounds s')"
proof -
  define tgt where "tgt = constrain t (sint (m_minStep s)) (sint (m_maxStep s))"
  define s1 where "s1 = s\<lparr>m_targetStep := word_of_int tgt\<rparr>"
  have tgt: "sint (word_of_int tgt :: c_int) = tgt"
    unfolding tgt_def by (rule sint_constrain)
  have s1: "sint (m_minStep s) \<le> sint (m_maxStep s) \<longrightarrow> target_in_bounds s1"
    using constrain_in_bounds [of "sint (m_minStep s)" "sint (m_maxStep s)" t]
    by (simp add: target_in_bounds_def s1_def tgt tgt_def [symmetric])
  show ?thesis
  proof (cases "sint (m_currentStep s) = tgt")
    case True
    with assms have "s' = s1"
      by (simp add: moveToSync_unfold tgt_def [symmetric] s1_def)
    with s1 show ?thesis by (simp add: s1_def)
  next
    case False
    with assms obtain z where z: "moveToSync_loop obs (activateMotor (sint (m_currentStep s) < tgt) s1) = Some z"
      and s': "s' = deactivateMotor z"
      by (auto simp: moveToSync_unfold tgt_def [symmetric] s1_def [symmetric])
    from moveToSync_loop_bounds [OF z] s1 show ?thesis
      by (auto simp: s' target_in_bounds_def s1_def)
  qed
qed

lemma moveToSync_lastPosition:
  assumes "moveToSync obs t s = Some s'" and "m_lastPosition s' \<noteq> m_lastPosition s"
  shows "transitions s' \<noteq> transitions s \<and> m_lastPosition s' = m_currentStep s'"
proof -
  define tgt where "tgt = constrain t (sint (m_minStep s)) (sint (m_maxStep s))"
  define s1 where "s1 = s\<lparr>m_targetStep := word_of_int tgt\<rparr>"
  from assms have ne: "sint (m_currentStep s) \<noteq> tgt"
    by (auto simp: moveToSync_unfold tgt_def [symmetric] split: if_splits)
  with assms obtain z where z: "moveToSync_loop obs (activateMotor (sint (m_currentStep s) < tgt) s1) = Some z"
    and s': "s' = deactivateMotor z"
    by (auto simp: moveToSync_unfold tgt_def [symmetric] s1_def [symmetric])
  from moveToSync_loop_io [OF z] obtain es where
    "io_log z = io_log (activateMotor (sint (m_currentStep s) < tgt) s1) @ es" by blast
  then have "\<exists>es. io_log z = io_log s @ es"
    by (simp add: s1_def activateMotor_io)
  then obtain es' where "io_log z = io_log s @ es'" by blast
  then have "transitions s' \<noteq> transitions s"
    by (simp add: s' transitions_def deactivateMotor_io upt_4)
  then show ?thesis by (simp add: s')
qed

lemma clock_resync:
  fixes t u l :: millis
  assumes "stepDelay \<le> u - t" and "t - l < stepDelay" and "u - l < stepDelay"
  shows "u = l"
proof -
  define x where "x = t - l"
  define y where "y = u - t"
  have sum: "u - l = x + y" by (simp add: x_def y_def)
  from assms(2) have "unat x < 2" by (simp add: x_def stepDelay_def word_less_nat_alt)
  moreover from assms(1) have "2 \<le> unat y" by (simp add: y_def stepDelay_def word_le_nat_alt)
  moreover from assms(3) have "unat (x + y) < 2"
    by (simp add: sum stepDelay_def word_less_nat_alt)
  moreover have "unat (x + y) = (unat x + unat y) mod 2 ^ 32"
    by (simp add: unat_word_ariths)
  moreover have "unat y < 2 ^ 32" using unsigned_less [of y, where 'a = nat] by simp
  ultimately have "unat (x + y) = 0"
    by (auto simp: mod_if split: if_splits)
  then have "x + y = 0" by (simp add: unat_eq_0)
  with sum show ?thesis by simp
qed

lemma update_inactive: "\<not> m_motorActive s \<Longrightarrow> update t s = s"
  by (simp add: update_def)

lemma run_updates_inactive: "\<not> m_motorActive s \<Longrightarrow> run_updates ts s = s"
  by (induction ts) (simp_all add: run_updates_def update_inactive)

lemma run_updates_Cons: "run_updates (t # ts) s = run_updates ts (update t s)"
  by (simp add: run_updates_def)

lemma run_updates_targetStep [simp]: "m_targetStep (run_updates ts s) = m_targetStep s"
  by (induction ts arbitrary: s) (simp_all add: run_updates_def)

lemma update_arrived:
  "seeking s \<Longrightarrow> m_currentStep s = m_targetStep s \<Longrightarrow> update t s = deactivateMotor s"
  by (simp add: update_def seeking_def)

lemma seeking_short:
  "seeking s \<Longrightarrow> m_currentStep s \<noteq> m_targetStep s \<Longrightarrow>
   \<not> ((m_clockwise s \<and> sint (m_currentStep s) \<ge> sint (m_targetStep s)) \<or>
      (\<not> m_clockwise s \<and> sint (m_currentStep s) \<le> sint (m_targetStep s)))"
  by (auto simp: seeking_def sint_eq_iff_c_int [symmetric])

lemma update_step:
  assumes "seeking s" and "m_currentStep s \<noteq> m_targetStep s"
    and "stepDelay \<le> t - m_lastStepTime s"
  shows "update t s = (stepMotor s)\<lparr>m_lastStepTime := t\<rparr>"
proof -
  note seeking_short [OF assms(1,2)]
  moreover from assms(1) have "m_motorActive s" by (simp add: seeking_def)
  ultimately show ?thesis using assms(3) by (auto simp: update_def)
qed

lemma update_wait:
  assumes "seeking s" and "m_currentStep s \<noteq> m_targetStep s"
    and "t - m_lastStepTime s < stepDelay"
  shows "update t s = s"
proof -
  note seeking_short [OF assms(1,2)]
  moreover from assms(3) have "\<not> stepDelay \<le> t - m_lastStepTime s" by (simp add: not_le)
  ultimately show ?thesis by (auto simp: update_def)
qed

lemma seeking_step:
  assumes "seeking s" and "m_currentStep s \<noteq> m_targetStep s"
  shows "seeking ((stepMotor s)\<lparr>m_lastStepTime := t\<rparr>) \<and>
   Suc (nat \<bar>sint (m_targetStep s) - sint (m_currentStep ((stepMotor s)\<lparr>m_lastStepTime := t\<rparr>))\<bar>) =
     nat \<bar>sint (m_targetStep s) - sint (m_currentStep s)\<bar>"
proof (cases "m_clockwise s")
  case True
  with assms have "sint (m_currentStep s) < sint (m_targetStep s)"
    by (auto simp: seeking_def order_less_le sint_eq_iff_c_int)
  then have "sint (m_currentStep s + 1) = sint (m_currentStep s) + 1"
    and "sint (m_currentStep s) < sint (m_targetStep s)"
    by (simp_all add: sint_succ)
  with True assms(1) show ?thesis by (simp add: seeking_def)
next
  case False
  with assms have "sint (m_targetStep s) < sint (m_currentStep s)"
    by (auto simp: seeking_def order_less_le sint_eq_iff_c_int)
  then have "sint (m_currentStep s - 1) = sint (m_currentStep s) - 1"
    and "sint (m_targetStep s) < sint (m_currentStep s)"
    by (simp_all add: sint_pred)
  with False assms(1) show ?thesis by (simp add: seeking_def)
qed

lemma run_updates_arrived:
  assumes "seeking s" and "m_currentStep s = m_targetStep s"
  shows "m_currentStep (run_updates (t # ts) s) = m_targetStep s \<and>
         \<not> m_motorActive (run_updates (t # ts) s)"
  using assms by (simp add: run_updates_Cons update_arrived run_updates_inactive)

lemma run_updates_synced:
  "seeking s \<Longrightarrow> paced (m_lastStepTime s # ts) \<Longrightarrow>
   nat \<bar>sint (m_targetStep s) - sint (m_currentStep s)\<bar> < length ts \<Longrightarrow>
   m_currentStep (run_updates ts s) = m_targetStep s \<and> \<not> m_motorActive (run_updates ts s)"
proof (induction ts arbitrary: s)
  case Nil
  then show ?case by simp
next
  case (Cons t ts)
  show ?case
  proof (cases "m_currentStep s = m_targetStep s")
    case True
    with Cons.prems(1) show ?thesis by (rule run_updates_arrived)
  next
    case False
    let ?s = "(stepMotor s)\<lparr>m_lastStepTime := t\<rparr>"
    from Cons.prems(2) have due: "stepDelay \<le> t - m_lastStepTime s" and rest: "paced (t # ts)"
      by simp_all
    from Cons.prems(1) False due have upd: "update t s = ?s"
      by (rule update_step)
    from Cons.prems(1) False have sk: "seeking ?s"
      and dist: "Suc (nat \<bar>sint (m_targetStep s) - sint (m_currentStep ?s)\<bar>) =
        nat \<bar>sint (m_targetStep s) - sint (m_currentStep s)\<bar>"
      using seeking_step by blast+
    from Cons.prems(3) dist have "nat \<bar>sint (m_targetStep ?s) - sint (m_currentStep ?s)\<bar> < length ts"
      by simp
    with sk rest have "m_currentStep (run_updates ts ?s) = m_targetStep ?s \<and>
        \<not> m_motorActive (run_updates ts ?s)"
      by (intro Cons.IH) simp_all
    with upd show ?thesis by (simp add: run_updates_Cons)
  qed
qed

lemma run_updates_seeking:
  assumes sk: "seeking s" and pc: "paced ts"
    and len: "nat \<bar>sint (m_targetStep s) - sint (m_currentStep s)\<bar> + 2 < length ts"
  shows "m_currentStep (run_updates ts s) = m_targetStep s \<and> \<not> m_motorActive (run_updates ts s)"
proof -
  from len obtain t1 t2 ts' where ts: "ts = t1 # t2 # ts'"
    by (cases ts; cases "tl ts") auto
  from pc ts have p12: "stepDelay \<le> t2 - t1" and p2: "paced (t2 # ts')"
    by simp_all
  show ?thesis
  proof (cases "m_currentStep s = m_targetStep s")
    case True
    with sk show ?thesis unfolding ts by (rule run_updates_arrived)
  next
    case False
    show ?thesis
    proof (cases "stepDelay \<le> t1 - m_lastStepTime s")
      case True
      let ?s = "(stepMotor s)\<lparr>m_lastStepTime := t1\<rparr>"
      from sk False True have upd: "update t1 s = ?s" by (rule update_step)
      from sk False have "seeking ?s"
        and "Suc (nat \<bar>sint (m_targetStep s) - sint (m_currentStep ?s)\<bar>) =
          nat \<bar>sint (m_targetStep s) - sint (m_currentStep s)\<bar>"
        using seeking_step by blast+
      moreover from pc ts have "paced (m_lastStepTime ?s # t2 # ts')" by simp
      moreover note len
      ultimately have "m_currentStep (run_updates (t2 # ts') ?s) = m_targetStep ?s \<and>
          \<not> m_motorActive (run_updates (t2 # ts') ?s)"
        by (intro run_updates_synced) (simp_all add: ts)
      with upd show ?thesis by (simp add: ts run_updates_Cons)
    next
      case wait1: False
      then have w1: "t1 - m_lastStepTime s < stepDelay" by (simp add: not_le)
      with sk False have upd1: "update t1 s = s" by (rule update_wait)
      show ?thesis
      proof (cases "stepDelay \<le> t2 - m_lastStepTime s")
        case True
        let ?s = "(stepMotor s)\<lparr>m_lastStepTime := t2\<rparr>"
        from sk False True have upd: "update t2 s = ?s" by (rule update_step)
        from sk False have "seeking ?s"
          and "Suc (nat \<bar>sint (m_targetStep s) - sint (m_currentStep ?s)\<bar>) =
            nat \<bar>sint (m_targetStep s) - sint (m_currentStep s)\<bar>"
          using seeking_step by blast+
        moreover from p2 have "paced (m_lastStepTime ?s # ts')" by simp
        moreover note len
        ultimately have "m_currentStep (run_updates ts' ?s) = m_targetStep ?s \<and>
            \<not> m_motorActive (run_updates ts' ?s)"
          by (intro run_updates_synced) (simp_all add: ts)
        with upd upd1 show ?thesis by (simp add: ts run_updates_Cons)
      next
        case False
        then have w2: "t2 - m_lastStepTime s < stepDelay" by (simp add: not_le)
        with sk \<open>m_currentStep s \<noteq> m_targetStep s\<close> have upd2: "update t2 s = s"
          by (rule update_wait)
        from p12 w1 w2 have "t2 = m_lastStepTime s" by (rule clock_resync)
        with p2 have "paced (m_lastStepTime s # ts')" by simp
        with sk have "m_currentStep (run_updates ts' s) = m_targetStep s \<and>
            \<not> m_motorActive (run_updates ts' s)"
          using len by (intro run_updates_synced) (simp_all add: ts)
        with upd1 upd2 show ?thesis by (simp add: ts run_updates_Cons)
      qed
    qed
  qed
qed

lemma moveTo_seeking_or_idle:
  "seeking (moveTo target s) \<or>
   (\<not> m_motorActive (moveTo target s) \<and>
    m_currentStep (moveTo target s) = m_targetStep (moveTo target s))"
  by (auto simp: moveTo_def Let_def seeking_def sint_eq_iff_c_int [symmetric])

lemma exec_bounds:
  assumes "exec obs c s = Some s'"
  shows "m_minStep s' = m_minStep s \<and> m_maxStep s' = m_maxStep s \<and>
         (sint (m_minStep s) \<le> sint (m_maxStep s) \<longrightarrow> target_in_bounds s \<longrightarrow> target_in_bounds s')"
proof (cases c)
  case (Request r)
  with assms show ?thesis by (auto simp: perform_target_in_bounds)
next
  case (MoveToSync t)
  with assms moveToSync_frame [of obs t s s'] show ?thesis by simp
qed

lemma run_bounds:
  "run obs cs s = Some s' \<Longrightarrow> sint (m_minStep s) \<le> sint (m_maxStep s) \<Longrightarrow> target_in_bounds s \<Longrightarrow>
   target_in_bounds s' \<and> sint (m_minStep s') \<le> sint (m_maxStep s')"
proof (induction cs arbitrary: s)
  case Nil
  then show ?case by simp
next
  case (Cons c cs)
  from Cons.prems(1) obtain s1 where s1: "exec obs c s = Some s1" and r: "run obs cs s1 = Some s'"
    by (auto split: option.splits)
  from exec_bounds [OF s1] Cons.prems(2,3)
  have "sint (m_minStep s1) \<le> sint (m_maxStep s1)" and "target_in_bounds s1"
    by simp_all
  with r show ?case by (rule Cons.IH)
qed

lemma exec_quiet_returns: "\<exists>s'. exec quiet c s = Some s'"
  by (cases c) (simp_all add: moveToSync_quiet_returns)

lemma run_quiet_returns: "\<exists>s'. run quiet cs s = Some s'"
proof (induction cs arbitrary: s)
  case Nil
  show ?case by simp
next
  case (Cons c cs)
  obtain s1 where "exec quiet c s = Some s1"
    using exec_quiet_returns by blast
  with Cons.IH [of s1] show ?case by simp
qed

lemma perform_lastPosition:
  assumes "m_lastPosition (perform r s) \<noteq> m_lastPosition s"
  shows "(\<exists>p. r = SetLastPosition p) \<or>
         (transitions (perform r s) \<noteq> transitions s \<and>
          m_lastPosition (perform r s) = m_currentStep (perform r s))"
proof (cases r)
  case (Update t)
  with assms show ?thesis
    by (auto simp: update_def transitions_deactivateMotor split: if_splits)
next
  case (ActivateMotor d)
  with assms show ?thesis by (auto simp: transitions_activateMotor)
next
  case DeactivateMotor
  with assms show ?thesis by (auto simp: transitions_deactivateMotor)
next
  case StepMotor
  with assms show ?thesis by auto
next
  case (MoveTo t)
  with assms show ?thesis
    by (auto simp: moveTo_def Let_def transitions_def activateMotor_io upt_4 split: if_splits)
next
  case (SetStepCallback f)
  with assms show ?thesis by (auto simp: setStepCallback_def)
next
  case (SetCurrentStep p)
  with assms show ?thesis by (auto simp: setCurrentStep_def)
next
  case (SetLastPosition p)
  then show ?thesis by simp
qed

lemma exec_lastPosition:
  assumes "exec obs c s = Some s'" and "m_lastPosition s' \<noteq> m_lastPosition s"
  shows "(\<exists>p. c = Request (SetLastPosition p)) \<or>
         (transitions s' \<noteq> transitions s \<and> m_lastPosition s' = m_currentStep s')"
proof (cases c)
  case (Request r)
  with assms perform_lastPosition [of r s] show ?thesis by auto
next
  case (MoveToSync t)
  with assms moveToSync_lastPosition [of obs t s s'] show ?thesis by simp
qed

subsection \<open>C1: the row index and the bounds of the table\<close>

text \<open>
  C1 says that the row index \<^verbatim>\<open>stepMotor\<close> computes lies in \<open>[0, 3]\<close> for every signed
  \<open>m_currentStep\<close>, negative ones included, so that the read of the table is in bounds.
  The code does this for the positions from 0 upwards and for the multiples of 4, and
  for no other (\<open>stepIndex_in_table_iff\<close>): with the truncating \<^verbatim>\<open>%\<close>, position \<open>-1\<close>
  gives row \<open>-1\<close> clockwise and row \<open>4\<close> counter-clockwise, and the read leaves the
  table. A driver built with bounds \<open>[-10, 10]\<close> and sent to \<open>-5\<close> gets there on its
  second step: its first row is read from the table, its second is not.
\<close>

theorem stepIndex_negative_outside_table:
  "stepIndex True (- 1) = - 1 \<and> stepIndex False (- 1) = 4 \<and>
   fullSteps_at (stepIndex True (- 1)) 0 = None \<and>
   fullSteps_at (stepIndex False (- 1)) 0 = None \<and>
   pin_writes (run_updates [2, 4] (moveTo (- 5) (new_MotorControl pins0 (- 10) 10))) =
     [DigitalWrite 8 (Some LOW), DigitalWrite 9 (Some LOW),
      DigitalWrite 10 (Some LOW), DigitalWrite 11 (Some LOW),
      DigitalWrite 8 (Some HIGH), DigitalWrite 9 (Some LOW),
      DigitalWrite 10 (Some LOW), DigitalWrite 11 (Some HIGH),
      DigitalWrite 8 None, DigitalWrite 9 None, DigitalWrite 10 None, DigitalWrite 11 None]"
  by code_simp

subsection \<open>C2: moveToSync\<close>

text \<open>
  C2 says that for every initial state and target \<^verbatim>\<open>moveToSync\<close> returns with
  \<open>m_currentStep\<close> at the clamped target, with \<open>m_motorActive\<close> false, and with the
  observer called once per step with the running position. Two things stand against it,
  both in the closed evaluation after the theorem: a driver that is active and already at
  the clamped target is left active by the immediate return; and an observer may call
  the driver from inside the loop, so that one which deactivates the driver at position
  1 makes a move to 3 return at 1.

  C2 as amended: if the registered observer makes no call on the driver, then for every
  initial state and target the call returns, with \<open>m_currentStep\<close> at the clamped target;
  \<open>m_motorActive\<close> is false on return when the position differed from the clamped target
  on entry or the driver was not active on entry; when the position differed, the state
  returned is the one reached by activating towards the target, running as many rounds
  of step, wait and notify as there are positions on the way, and deactivating; and the
  positions handed to a registered observer during the call are exactly the positions on
  the way, in order, one per step (the pin writes logged by the call are the four of
  the activation and four per step).
\<close>

theorem moveToSync_returns_at_target:
  assumes "\<forall>f p s'. m_stepCallback s = Some f \<longrightarrow> obs f p s' = []"
  shows "\<exists>s'. moveToSync obs target s = Some s' \<and>
     (let tgt = constrain target (sint (m_minStep s)) (sint (m_maxStep s)) in
      sint (m_currentStep s') = tgt \<and>
      (sint (m_currentStep s) \<noteq> tgt \<or> \<not> m_motorActive s \<longrightarrow> \<not> m_motorActive s') \<and>
      (sint (m_currentStep s) \<noteq> tgt \<longrightarrow>
         s' = deactivateMotor
           ((moveToSync_body obs ^^ length (path (sint (m_currentStep s)) tgt))
             (activateMotor (sint (m_currentStep s) < tgt)
                (s\<lparr>m_targetStep := word_of_int tgt\<rparr>)))) \<and>
      observed (io_log s') = observed (io_log s) @
        (if m_stepCallback s = None then [] else path (sint (m_currentStep s)) tgt) \<and>
      length (pin_writes s') = length (pin_writes s) +
        (if sint (m_currentStep s) = tgt then 0
         else 4 + 4 * length (path (sint (m_currentStep s)) tgt)))"
proof -
  define tgt where "tgt = constrain target (sint (m_minStep s)) (sint (m_maxStep s))"
  define s2 where "s2 = activateMotor (sint (m_currentStep s) < tgt) (s\<lparr>m_targetStep := word_of_int tgt\<rparr>)"
  define n where "n = nat \<bar>tgt - sint (m_currentStep s)\<bar>"
  have range: "- 2147483648 \<le> tgt" "tgt \<le> 2147483647"
    using constrain_range [of target "m_minStep s" "m_maxStep s"] by (simp_all add: tgt_def)
  show ?thesis
  proof (cases "sint (m_currentStep s) = tgt")
    case True
    then have "moveToSync obs target s = Some (s\<lparr>m_targetStep := word_of_int tgt\<rparr>)"
      by (simp add: moveToSync_eq [OF assms] tgt_def)
    with True show ?thesis
      by (simp add: tgt_def [symmetric] path_self pin_writes_def)
  next
    case False
    then have ret: "moveToSync obs target s = Some (deactivateMotor ((moveToSync_body quiet ^^ n) s2))"
      by (simp add: moveToSync_eq [OF assms] tgt_def [symmetric] s2_def n_def)
    from assms have "\<forall>f p s'. m_stepCallback s2 = Some f \<longrightarrow> obs f p s' = []"
      by (simp add: s2_def)
    then have same: "(moveToSync_body obs ^^ n) s2 = (moveToSync_body quiet ^^ n) s2"
      by (rule rounds_inert)
    have s2: "m_currentStep s2 = m_currentStep s" "m_clockwise s2 = (sint (m_currentStep s) < tgt)"
      "m_stepCallback s2 = m_stepCallback s" "observed (io_log s2) = observed (io_log s)"
      by (simp_all add: s2_def activateMotor_io upt_4 observed_append)
    have n: "int n = \<bar>tgt - sint (m_currentStep s)\<bar>"
      by (simp add: n_def)
    have cur: "sint (m_currentStep ((moveToSync_body quiet ^^ n) s2)) = tgt"
      and obs: "observed (io_log ((moveToSync_body quiet ^^ n) s2)) =
        observed (io_log s) @ (if m_stepCallback s = None then [] else path (sint (m_currentStep s)) tgt)"
    proof -
      show "sint (m_currentStep ((moveToSync_body quiet ^^ n) s2)) = tgt"
      proof (cases "sint (m_currentStep s) < tgt")
        case True
        with n range have "sint (m_currentStep s) + int n \<le> 2147483647"
          and "sint (m_currentStep s) + int n = tgt" by simp_all
        with True show ?thesis
          by (simp add: rounds_currentStep s2 sint_add_nat)
      next
        case up: False
        with False n range have "- 2147483648 \<le> sint (m_currentStep s) - int n"
          and "sint (m_currentStep s) - int n = tgt" by simp_all
        with up show ?thesis
          by (simp add: rounds_currentStep s2 sint_sub_nat)
      qed
      show "observed (io_log ((moveToSync_body quiet ^^ n) s2)) =
        observed (io_log s) @ (if m_stepCallback s = None then [] else path (sint (m_currentStep s)) tgt)"
      proof (cases "sint (m_currentStep s) < tgt")
        case True
        with n range have b: "sint (m_currentStep s2) + int n \<le> 2147483647"
          and e: "sint (m_currentStep s) + int n = tgt" by (simp_all add: s2)
        from True have "m_clockwise s2" by (simp add: s2)
        from rounds_observed_up [OF this b] e show ?thesis by (simp add: s2)
      next
        case up: False
        with False n range have b: "- 2147483648 \<le> sint (m_currentStep s2) - int n"
          and e: "sint (m_currentStep s) - int n = tgt" by (simp_all add: s2)
        from up have "\<not> m_clockwise s2" by (simp add: s2)
        from rounds_observed_down [OF this b] e show ?thesis by (simp add: s2)
      qed
    qed
    have "pin_writes (s\<lparr>m_targetStep := word_of_int tgt\<rparr>) = pin_writes s"
      by (simp add: pin_writes_def)
    then have "length (pin_writes s2) = length (pin_writes s) + 4"
      by (simp add: s2_def pin_writes_activateMotor)
    then have wr: "length (pin_writes (deactivateMotor ((moveToSync_body quiet ^^ n) s2))) =
        length (pin_writes s) + (4 + 4 * n)"
      by (simp add: pin_writes_deactivateMotor rounds_pin_writes)
    have obs': "observed (io_log (deactivateMotor ((moveToSync_body quiet ^^ n) s2))) =
        observed (io_log s) @ (if m_stepCallback s = None then [] else path (sint (m_currentStep s)) tgt)"
      using obs by (simp add: deactivateMotor_io upt_4 observed_append)
    from False ret cur obs' wr same show ?thesis
      by (simp add: tgt_def [symmetric] s2_def [symmetric] length_path n_def [symmetric])
  qed
qed

theorem moveToSync_returns_at_target_witness:
  "(\<forall>f p s'. quiet f p s' = []) \<and>
   map_option (\<lambda>s. sint (m_currentStep s)) (moveToSync quiet 3 (setStepCallback (Some 1) motor0)) = Some 3 \<and>
   map_option m_motorActive (moveToSync quiet 3 (setStepCallback (Some 1) motor0)) = Some False \<and>
   map_option (\<lambda>s. observed (io_log s)) (moveToSync quiet 3 (setStepCallback (Some 1) motor0)) = Some [1, 2, 3]"
proof -
  have q: "\<forall>f p s'. m_stepCallback (setStepCallback (Some 1) motor0) = Some f \<longrightarrow> quiet f p s' = []"
    by (simp add: quiet_def)
  have q': "\<forall>f p s'. quiet f p s' = []"
    by (simp add: quiet_def)
  from moveToSync_returns_at_target [OF q, of 3] have
    "map_option (\<lambda>s. sint (m_currentStep s)) (moveToSync quiet 3 (setStepCallback (Some 1) motor0)) = Some 3 \<and>
     map_option m_motorActive (moveToSync quiet 3 (setStepCallback (Some 1) motor0)) = Some False \<and>
     map_option (\<lambda>s. observed (io_log s)) (moveToSync quiet 3 (setStepCallback (Some 1) motor0)) = Some [1, 2, 3]"
    by (auto simp: Let_def setStepCallback_def motor0_def new_MotorControl_def constrain_def
        path_def upto_rec1)
  with q' show ?thesis by (rule conjI)
qed

theorem moveToSync_stays_active_or_stops_short:
  "map_option m_motorActive (moveToSync quiet 0 (activateMotor True motor0)) = Some True \<and>
   map_option (\<lambda>s. sint (m_currentStep s))
     (moveToSync (stop_at 1) 3 (setStepCallback (Some 1) motor0)) = Some 1"
  by code_simp

subsection \<open>C3: moveTo followed by paced updates\<close>

text \<open>
  C3: after \<^verbatim>\<open>moveTo\<close>, calls of \<^verbatim>\<open>update\<close> whose clock readings are each at least
  \<open>stepDelay\<close> after the one before bring \<open>m_currentStep\<close> to the clamped target once
  there are enough of them; the driver is then inactive, and every further \<^verbatim>\<open>update\<close>
  returns the state it was given, log included, so no pin is written again. Enough is
  the distance to the target plus three: at most two calls wait for the clock to pass
  the timestamp left by an earlier move, one call per step, and one call deactivates.
  No step on the way overflows, the target being a value of the type.
\<close>

theorem moveTo_then_updates:
  assumes "paced ts"
    and "nat \<bar>constrain target (sint (m_minStep s)) (sint (m_maxStep s)) - sint (m_currentStep s)\<bar> + 3
           \<le> length ts"
  shows "sint (m_currentStep (run_updates ts (moveTo target s))) =
           constrain target (sint (m_minStep s)) (sint (m_maxStep s)) \<and>
         \<not> m_motorActive (run_updates ts (moveTo target s)) \<and>
         (\<forall>t. update t (run_updates ts (moveTo target s)) = run_updates ts (moveTo target s))"
proof -
  let ?s = "moveTo target s"
  have "m_currentStep (run_updates ts ?s) = m_targetStep ?s \<and> \<not> m_motorActive (run_updates ts ?s)"
  proof (cases "seeking ?s")
    case True
    from assms(2) have "nat \<bar>sint (m_targetStep ?s) - sint (m_currentStep ?s)\<bar> + 2 < length ts"
      by (simp add: sint_constrain)
    with True assms(1) show ?thesis by (rule run_updates_seeking)
  next
    case False
    with moveTo_seeking_or_idle [of target s] show ?thesis
      by (simp add: run_updates_inactive)
  qed
  then show ?thesis by (simp add: update_inactive sint_constrain)
qed

theorem moveTo_then_updates_witness:
  "paced [1, 3, 5, 7, 9] \<and>
   sint (m_currentStep (run_updates [1, 3, 5, 7, 9] (moveTo 2 motor0))) = 2 \<and>
   \<not> m_motorActive (run_updates [1, 3, 5, 7, 9] (moveTo 2 motor0)) \<and>
   update 11 (run_updates [1, 3, 5, 7, 9] (moveTo 2 motor0)) =
     run_updates [1, 3, 5, 7, 9] (moveTo 2 motor0)"
proof -
  have p: "paced [1, 3, 5, 7, 9]" by (simp add: stepDelay_def)
  have m: "constrain 2 (sint (m_minStep motor0)) (sint (m_maxStep motor0)) = 2"
    "sint (m_currentStep motor0) = 0"
    by (simp_all add: constrain_def motor0_def new_MotorControl_def)
  have l: "nat \<bar>constrain 2 (sint (m_minStep motor0)) (sint (m_maxStep motor0)) -
      sint (m_currentStep motor0)\<bar> + 3 \<le> length [1, 3, 5, 7, 9 :: millis]"
    by (simp add: m)
  from moveTo_then_updates [OF p l] p show ?thesis by (simp add: m)
qed

subsection \<open>C4: one step per call of stepMotor\<close>

text \<open>
  C4 says that every call of \<^verbatim>\<open>stepMotor\<close> moves \<open>m_currentStep\<close> by exactly \<open>+1\<close> or
  \<open>-1\<close>. The position is an \<^verbatim>\<open>int\<close>: clockwise at \<^verbatim>\<open>INT_MAX\<close> the addition overflows
  and the position becomes \<^verbatim>\<open>INT_MIN\<close>, counter-clockwise at \<^verbatim>\<open>INT_MIN\<close> it becomes
  \<^verbatim>\<open>INT_MAX\<close>, as the closed evaluation after the theorem shows.

  C4 as amended: a call of \<^verbatim>\<open>stepMotor\<close> moves \<open>m_currentStep\<close> by exactly \<open>+1\<close> when
  the direction is clockwise and the position is below \<^verbatim>\<open>INT_MAX\<close>, and by exactly
  \<open>-1\<close> when the direction is counter-clockwise and the position is above \<^verbatim>\<open>INT_MIN\<close>;
  the bounds \<open>m_minStep\<close> and \<open>m_maxStep\<close> have no part in it.
\<close>

theorem stepMotor_unit_step:
  "(m_clockwise s \<and> sint (m_currentStep s) < INT_MAX \<longrightarrow>
      sint (m_currentStep (stepMotor s)) = sint (m_currentStep s) + 1) \<and>
   (\<not> m_clockwise s \<and> INT_MIN < sint (m_currentStep s) \<longrightarrow>
      sint (m_currentStep (stepMotor s)) = sint (m_currentStep s) - 1) \<and>
   m_currentStep (stepMotor (s\<lparr>m_minStep := lo, m_maxStep := hi\<rparr>)) = m_currentStep (stepMotor s)"
  using sint_add_nat [of "m_currentStep s" 1] sint_sub_nat [of "m_currentStep s" 1]
  by (simp add: INT_MAX_def INT_MIN_def stepMotor_def log_events_def)

theorem stepMotor_unit_step_witness:
  "m_clockwise (setCurrentStep 200 motor0) \<and>
   sint (m_currentStep (setCurrentStep 200 motor0)) < INT_MAX \<and>
   sint (m_currentStep (stepMotor (setCurrentStep 200 motor0))) = 201 \<and>
   \<not> m_clockwise (activateMotor False motor0) \<and>
   INT_MIN < sint (m_currentStep (activateMotor False motor0)) \<and>
   sint (m_currentStep (stepMotor (activateMotor False motor0))) = - 1"
  using stepMotor_unit_step [of "setCurrentStep 200 motor0"]
    stepMotor_unit_step [of "activateMotor False motor0"]
  by (simp add: setCurrentStep_def motor0_def new_MotorControl_def INT_MAX_def INT_MIN_def)

theorem stepMotor_overflows_at_the_ends:
  "m_clockwise (setCurrentStep 2147483647 motor0) \<and>
   sint (m_currentStep (setCurrentStep 2147483647 motor0)) = 2147483647 \<and>
   sint (m_currentStep (stepMotor (setCurrentStep 2147483647 motor0))) = - 2147483648 \<and>
   \<not> m_clockwise (activateMotor False (setCurrentStep (- 2147483648) motor0)) \<and>
   sint (m_currentStep (activateMotor False (setCurrentStep (- 2147483648) motor0))) = - 2147483648 \<and>
   sint (m_currentStep (stepMotor (activateMotor False (setCurrentStep (- 2147483648) motor0))))
     = 2147483647"
  by code_simp

subsection \<open>C5: the order of the rows\<close>

text \<open>
  C5 says that clockwise steps write rows 0, 1, 2, 3, 0, ... as the position goes up and
  that counter-clockwise steps write the reverse cycle 3, 2, 1, 0, 3, ... as it goes down.
  Counter-clockwise the code computes \<open>3 - m_currentStep % 4\<close> while it also counts the
  position down, and the two reversals cancel: from position 8 downwards the rows are
  3, 0, 1, 2, 3, the order of clockwise travel (\<open>stepIndex_ccw_pred\<close> has it for every
  positive position). The log of a driver set to position 8, activated
  counter-clockwise and stepped twice shows row 3 and then row 0.
\<close>

theorem ccw_rows_not_reversed:
  "map (stepIndex False) [8, 7, 6, 5, 4] = [3, 0, 1, 2, 3] \<and>
   pin_writes (stepMotor (stepMotor (activateMotor False (setCurrentStep 8 motor0)))) =
     [DigitalWrite 8 (Some LOW), DigitalWrite 9 (Some LOW),
      DigitalWrite 10 (Some LOW), DigitalWrite 11 (Some LOW)] @
     map2 DigitalWrite [8, 9, 10, 11] (table_row 3) @
     map2 DigitalWrite [8, 9, 10, 11] (table_row 0)"
  by code_simp

subsection \<open>C6: the target stays within the bounds\<close>

text \<open>
  C6: with \<open>m_minStep \<le> m_maxStep\<close>, after \<^verbatim>\<open>moveTo\<close> or \<^verbatim>\<open>moveToSync\<close> of any target
  \<open>m_targetStep\<close> lies within the bounds; a target five below the lower bound gives the
  lower bound and one five above the upper bound gives the upper bound; and whatever
  calls of the interface follow, the target is still within the bounds. With an observer
  that makes no call on the driver every one of these calls returns; with any observer,
  the bound holds after every call that returns.
\<close>

theorem target_stays_in_bounds:
  assumes "sint (m_minStep s) \<le> sint (m_maxStep s)"
  shows "target_in_bounds (moveTo t s) \<and>
         (\<exists>s'. moveToSync quiet t s = Some s' \<and> target_in_bounds s') \<and>
         m_targetStep (moveTo (sint (m_minStep s) - 5) s) = m_minStep s \<and>
         m_targetStep (moveTo (sint (m_maxStep s) + 5) s) = m_maxStep s \<and>
         (\<forall>s1 cs. exec quiet (Request (MoveTo t)) s = Some s1 \<or>
                  exec quiet (MoveToSync t) s = Some s1 \<longrightarrow>
            (\<exists>s'. run quiet cs s1 = Some s' \<and> target_in_bounds s')) \<and>
         (\<forall>s1 cs s'. (exec obs (Request (MoveTo t)) s = Some s1 \<or>
                      exec obs (MoveToSync t) s = Some s1) \<and> run obs cs s1 = Some s' \<longrightarrow>
            target_in_bounds s1 \<and> target_in_bounds s')"
proof -
  have a: "target_in_bounds (moveTo t s)"
    using constrain_in_bounds [OF assms] by (simp add: target_in_bounds_def sint_constrain)
  obtain s2 where s2: "moveToSync quiet t s = Some s2"
    using moveToSync_quiet_returns by blast
  have b: "target_in_bounds s2"
    using moveToSync_frame [OF s2] assms by simp
  have c: "m_targetStep (moveTo (sint (m_minStep s) - 5) s) = m_minStep s"
    by (simp add: constrain_def)
  have d: "m_targetStep (moveTo (sint (m_maxStep s) + 5) s) = m_maxStep s"
    using assms by (simp add: constrain_def)
  have first: "target_in_bounds s1 \<and> sint (m_minStep s1) \<le> sint (m_maxStep s1)"
    if "exec o' (Request (MoveTo t)) s = Some s1 \<or> exec o' (MoveToSync t) s = Some s1"
    for o' s1
    using that a assms by (auto dest: moveToSync_frame)
  have e: "\<exists>s'. run quiet cs s1 = Some s' \<and> target_in_bounds s'"
    if "exec quiet (Request (MoveTo t)) s = Some s1 \<or> exec quiet (MoveToSync t) s = Some s1"
    for s1 cs
  proof -
    obtain s' where s': "run quiet cs s1 = Some s'"
      using run_quiet_returns by blast
    with first [OF that] run_bounds [OF s'] show ?thesis by simp
  qed
  have f: "target_in_bounds s1 \<and> target_in_bounds s'"
    if "(exec obs (Request (MoveTo t)) s = Some s1 \<or> exec obs (MoveToSync t) s = Some s1) \<and>
        run obs cs s1 = Some s'" for s1 cs s'
  proof -
    from that have r: "run obs cs s1 = Some s'" by simp
    from that first [of obs s1] run_bounds [OF r] show ?thesis by simp
  qed
  from a s2 b c d e f show ?thesis by blast
qed

theorem target_stays_in_bounds_witness:
  "sint (m_minStep motor0) \<le> sint (m_maxStep motor0) \<and>
   sint (m_targetStep (moveTo (- 5) motor0)) = 0 \<and>
   sint (m_targetStep (moveTo 205 motor0)) = 200 \<and>
   map_option target_in_bounds
     (run quiet [Request (Update 7), Request (SetCurrentStep 500), Request StepMotor,
                 MoveToSync 300, Request DeactivateMotor]
        (moveTo 1000 motor0)) = Some True"
proof -
  have h: "sint (m_minStep motor0) \<le> sint (m_maxStep motor0)"
    by (simp add: motor0_def new_MotorControl_def)
  have m: "sint (m_minStep motor0) = 0" "sint (m_maxStep motor0) = 200"
    "m_minStep motor0 = 0" "m_maxStep motor0 = 200"
    by (simp_all add: motor0_def new_MotorControl_def)
  let ?cs = "[Request (Update 7), Request (SetCurrentStep 500), Request StepMotor,
              MoveToSync 300, Request DeactivateMotor]"
  from target_stays_in_bounds [OF h, of 1000] have
    "\<forall>s1 cs. exec quiet (Request (MoveTo 1000)) motor0 = Some s1 \<or>
        exec quiet (MoveToSync 1000) motor0 = Some s1 \<longrightarrow>
       (\<exists>s'. run quiet cs s1 = Some s' \<and> target_in_bounds s')"
    by blast
  moreover have "exec quiet (Request (MoveTo 1000)) motor0 = Some (moveTo 1000 motor0)"
    by simp
  ultimately have "\<exists>s'. run quiet ?cs (moveTo 1000 motor0) = Some s' \<and> target_in_bounds s'"
    by blast
  moreover from target_stays_in_bounds [OF h, of 0] m
  have "sint (m_targetStep (moveTo (- 5) motor0)) = 0 \<and> sint (m_targetStep (moveTo 205 motor0)) = 200"
    by simp
  ultimately show ?thesis using h by auto
qed

subsection \<open>C7: pacing of update\<close>



subsection \<open>C8: deactivating an idle driver\<close>

text \<open>
  C8: \<^verbatim>\<open>deactivateMotor\<close> on a driver that is not active changes neither \<open>m_currentStep\<close>
  nor \<open>m_motorActive\<close>.
\<close>

theorem deactivateMotor_idle:
  assumes "\<not> m_motorActive s"
  shows "m_currentStep (deactivateMotor s) = m_currentStep s \<and>
         m_motorActive (deactivateMotor s) = m_motorActive s"
  using assms by simp

theorem deactivateMotor_idle_witness:
  "\<not> m_motorActive motor0 \<and>
   m_currentStep (deactivateMotor motor0) = 0 \<and> \<not> m_motorActive (deactivateMotor motor0)"
  using deactivateMotor_idle [of motor0]
  by (simp add: motor0_def new_MotorControl_def)

subsection \<open>C9: who writes the last position\<close>

text \<open>
  C9 says that \<open>m_lastPosition\<close> is modified only by \<^verbatim>\<open>activateMotor\<close> and
  \<^verbatim>\<open>deactivateMotor\<close>. The header also has the setter \<^verbatim>\<open>setLastPosition\<close>, which writes
  it with no activation or deactivation, as the closed evaluation after the theorem
  shows.

  C9 as amended: \<^verbatim>\<open>activateMotor\<close> and \<^verbatim>\<open>deactivateMotor\<close> each set \<open>m_lastPosition\<close> to
  the current \<open>m_currentStep\<close>, and \<^verbatim>\<open>setLastPosition\<close> sets it to its argument;
  \<^verbatim>\<open>stepMotor\<close> changes neither \<open>m_lastPosition\<close> nor the target, the direction, the
  activation flag or the bounds; and a call of the interface that changes
  \<open>m_lastPosition\<close>, whatever the observer does during it, is either \<^verbatim>\<open>setLastPosition\<close>
  or has gone through an activation or a deactivation (the log shows new pin-mode
  calls) and leaves \<open>m_lastPosition\<close> equal to \<open>m_currentStep\<close>.
\<close>

theorem lastPosition_written_at_transitions:
  "m_lastPosition (activateMotor d s) = m_currentStep s \<and>
   m_lastPosition (deactivateMotor s) = m_currentStep s \<and>
   m_lastPosition (setLastPosition p s) = word_of_int p \<and>
   m_lastPosition (stepMotor s) = m_lastPosition s \<and>
   m_targetStep (stepMotor s) = m_targetStep s \<and>
   m_clockwise (stepMotor s) = m_clockwise s \<and>
   m_motorActive (stepMotor s) = m_motorActive s \<and>
   m_minStep (stepMotor s) = m_minStep s \<and>
   m_maxStep (stepMotor s) = m_maxStep s \<and>
   (\<forall>c s'. exec obs c s = Some s' \<and> m_lastPosition s' \<noteq> m_lastPosition s \<longrightarrow>
      (\<exists>p. c = Request (SetLastPosition p)) \<or>
      (transitions s' \<noteq> transitions s \<and> m_lastPosition s' = m_currentStep s'))"
  using exec_lastPosition [of obs _ s] by (simp add: setLastPosition_def)

theorem lastPosition_written_at_transitions_witness:
  "sint (m_lastPosition (stepMotor (setLastPosition 9 motor0))) = 9 \<and>
   sint (m_lastPosition (activateMotor False (stepMotor motor0))) = 1 \<and>
   m_lastPosition (update 2 (moveTo 1 motor0)) = m_lastPosition (moveTo 1 motor0) \<and>
   sint (m_lastPosition (update 4 (update 2 (moveTo 1 motor0)))) = 1 \<and>
   transitions (update 4 (update 2 (moveTo 1 motor0))) \<noteq> transitions (update 2 (moveTo 1 motor0))"
  using lastPosition_written_at_transitions [of False "stepMotor motor0" 9 quiet]
    lastPosition_written_at_transitions [of True "setLastPosition 9 motor0" 9 quiet]
    lastPosition_written_at_transitions [of True "update 2 (moveTo 1 motor0)" 9 quiet,
      THEN conjunct2, THEN conjunct2, THEN conjunct2, THEN conjunct2, THEN conjunct2,
      THEN conjunct2, THEN conjunct2, THEN conjunct2, THEN conjunct2, THEN spec, THEN spec,
      of "Request (Update 4)" "update 4 (update 2 (moveTo 1 motor0))"]
  by (simp add: motor0_def new_MotorControl_def setLastPosition_def moveTo_def constrain_def
      update_def stepDelay_def)

theorem setLastPosition_changes_lastPosition:
  "m_lastPosition (setLastPosition 7 motor0) \<noteq> m_lastPosition motor0 \<and>
   transitions (setLastPosition 7 motor0) = transitions motor0 \<and>
   m_motorActive (setLastPosition 7 motor0) = m_motorActive motor0"
  by (simp add: setLastPosition_def motor0_def new_MotorControl_def transitions_def)

subsection \<open>C10: moveToSync at the target\<close>

text \<open>
  C10: when the clamped target equals \<open>m_currentStep\<close>, \<^verbatim>\<open>moveToSync\<close> returns at once and
  the only member it has changed is \<open>m_targetStep\<close>: position, last position, direction
  and activation are as before (an active driver stays active), the log has no new
  entry, so no pin was touched and the observer was not called.
\<close>

theorem moveToSync_at_target:
  assumes "constrain target (sint (m_minStep s)) (sint (m_maxStep s)) = sint (m_currentStep s)"
  shows "moveToSync obs target s = Some (s\<lparr>m_targetStep := m_currentStep s\<rparr>)"
  using assms by (simp add: moveToSync_unfold)

theorem moveToSync_at_target_witness:
  "constrain 0 (sint (m_minStep (activateMotor True motor0)))
     (sint (m_maxStep (activateMotor True motor0)))
     = sint (m_currentStep (activateMotor True motor0)) \<and>
   map_option m_motorActive (moveToSync (stop_at 0) 0 (activateMotor True motor0)) = Some True \<and>
   map_option io_log (moveToSync (stop_at 0) 0 (activateMotor True motor0)) =
     Some (io_log (activateMotor True motor0))"
  using moveToSync_at_target [of 0 "activateMotor True motor0" "stop_at 0"]
  by (simp add: motor0_def new_MotorControl_def constrain_def)

end
